theory Spec2Isabelle
  imports Complex_Main
begin

section \<open>Python and numpy primitives used by the program\<close>

text \<open>
  The exceptions the modelled code can raise. \<open>ValueError\<close> is raised by
  \<open>read_latest\<close> itself, by numpy when a slice assignment cannot broadcast, and by
  \<open>time.sleep\<close> on a negative argument; \<open>ZeroDivisionError\<close> by \<open>%\<close> and \<open>/\<close>
  with a zero divisor.
\<close>

datatype error = ValueError | ZeroDivisionError

text \<open>
  A slice bound of Python: a negative bound counts from the end, and every bound is
  clipped to the length of the sequence. \<open>None\<close> is an omitted bound.
\<close>

definition clip_index :: "nat \<Rightarrow> int \<Rightarrow> nat" where
  "clip_index len i = (if i < 0 then nat (int len + i) else min (nat i) len)"

definition lower_bound :: "nat \<Rightarrow> int option \<Rightarrow> nat" where
  "lower_bound len lo = (case lo of None \<Rightarrow> 0 | Some i \<Rightarrow> clip_index len i)"

definition upper_bound :: "nat \<Rightarrow> int option \<Rightarrow> nat" where
  "upper_bound len hi = (case hi of None \<Rightarrow> len | Some i \<Rightarrow> clip_index len i)"

text \<open>\<open>xs[lo:hi]\<close>, for a list and for a one-dimensional array.\<close>

definition slice :: "'a list \<Rightarrow> int option \<Rightarrow> int option \<Rightarrow> 'a list" where
  "slice xs lo hi =
     (let l = lower_bound (length xs) lo; h = upper_bound (length xs) hi
      in take (h - l) (drop l xs))"

text \<open>
  \<open>arr[lo:hi] = vals\<close> on a one-dimensional numpy array: the values must have the
  length of the slice, or length one (numpy then broadcasts the single value over the
  slice); any other length raises \<open>ValueError\<close> and leaves the array as it was.
\<close>

definition assign_slice :: "'a list \<Rightarrow> int option \<Rightarrow> int option \<Rightarrow> 'a list \<Rightarrow> error + 'a list" where
  "assign_slice arr lo hi vals =
     (let l = lower_bound (length arr) lo; h = upper_bound (length arr) hi; k = h - l
      in if length vals = k then Inr (take l arr @ vals @ drop (l + k) arr)
         else if length vals = 1 then Inr (take l arr @ replicate k (hd vals) @ drop (l + k) arr)
         else Inl ValueError)"

section \<open>RingBuffer\<close>

text \<open>
  The object state of \<open>RingBuffer\<close>: \<open>size\<close> (here \<open>size_rb\<close>), the numpy array
  \<open>buffer\<close> and \<open>write_ptr\<close>. The element type stands for the stored float64
  values. The lock is not part of the sequential state: every method acquires it on
  entry and releases it on every exit.
\<close>

record 'a RingBuffer =
  size_rb :: nat
  buffer :: "'a list"
  write_ptr :: nat

text \<open>\<open>__init__\<close>: \<open>np.zeros(size)\<close> and a write pointer of 0.\<close>

definition init :: "nat \<Rightarrow> ('a::zero) RingBuffer" where
  "init sz = \<lparr>size_rb = sz, buffer = replicate sz 0, write_ptr = 0\<rparr>"

text \<open>
  \<open>write\<close>: the result is the raised exception or \<open>()\<close>, paired with the object
  state the call leaves behind. The first branch keeps \<open>data[-size:]\<close>; the second
  computes \<open>end_ptr\<close> and copies in one or two pieces.
\<close>

definition "write" :: "'a RingBuffer \<Rightarrow> 'a list \<Rightarrow> (error + unit) \<times> 'a RingBuffer" where
  "write rb data =
     (let n = length data in
      if n \<ge> size_rb rb then
        (case assign_slice (buffer rb) None None (slice data (Some (- int (size_rb rb))) None) of
           Inl e \<Rightarrow> (Inl e, rb)
         | Inr b \<Rightarrow> (Inr (), rb\<lparr>buffer := b, write_ptr := 0\<rparr>))
      else
        (let end_ptr = (write_ptr rb + n) mod size_rb rb in
         if end_ptr < write_ptr rb then
           (let first_part = int (size_rb rb) - int (write_ptr rb) in
            case assign_slice (buffer rb) (Some (int (write_ptr rb))) None
                   (slice data None (Some first_part)) of
              Inl e \<Rightarrow> (Inl e, rb)
            | Inr b1 \<Rightarrow>
               (case assign_slice b1 (Some 0) (Some (int end_ptr))
                       (slice data (Some first_part) None) of
                  Inl e \<Rightarrow> (Inl e, rb\<lparr>buffer := b1\<rparr>)
                | Inr b2 \<Rightarrow> (Inr (), rb\<lparr>buffer := b2, write_ptr := end_ptr\<rparr>)))
         else
           (case assign_slice (buffer rb) (Some (int (write_ptr rb))) (Some (int end_ptr)) data of
              Inl e \<Rightarrow> (Inl e, rb)
            | Inr b \<Rightarrow> (Inr (), rb\<lparr>buffer := b, write_ptr := end_ptr\<rparr>))))"

text \<open>
  \<open>read_latest\<close>: \<open>num_samples\<close> is a Python integer. \<open>%\<close> is Python's floored
  modulo, which is \<open>mod\<close> on \<open>int\<close>, and raises on a zero divisor. The method
  assigns to no attribute, so the state it returns is the state it was given.
\<close>

definition read_latest :: "'a RingBuffer \<Rightarrow> int \<Rightarrow> (error + 'a list) \<times> 'a RingBuffer" where
  "read_latest rb num_samples =
     (if num_samples > int (size_rb rb) then (Inl ValueError, rb)
      else if size_rb rb = 0 then (Inl ZeroDivisionError, rb)
      else
        (let start = (int (write_ptr rb) - num_samples) mod int (size_rb rb) in
         if start + num_samples \<le> int (size_rb rb) then
           (Inr (slice (buffer rb) (Some start) (Some (start + num_samples))), rb)
         else
           (let end_len = (start + num_samples) - int (size_rb rb) in
            (Inr (slice (buffer rb) (Some start) None @ slice (buffer rb) None (Some end_len)), rb))))"

text \<open>A sequence of \<open>write\<close> calls on one buffer, stopping at the first exception.\<close>

fun writes :: "'a RingBuffer \<Rightarrow> 'a list list \<Rightarrow> (error + unit) \<times> 'a RingBuffer" where
  "writes rb [] = (Inr (), rb)"
| "writes rb (d # ds) =
     (case write rb d of
        (Inl e, rb') \<Rightarrow> (Inl e, rb')
      | (Inr u, rb') \<Rightarrow> writes rb' ds)"

text \<open>
  The capacity invariant: a positive size, an array of that length and a write
  pointer inside it.
\<close>

definition wf :: "'a RingBuffer \<Rightarrow> bool" where
  "wf rb = (0 < size_rb rb \<and> length (buffer rb) = size_rb rb \<and> write_ptr rb < size_rb rb)"

text \<open>
  The contents in chronological order: the slot at \<open>write_ptr\<close> is the oldest, the
  slot before it the newest.
\<close>

definition chronological :: "'a RingBuffer \<Rightarrow> 'a list" where
  "chronological rb = drop (write_ptr rb) (buffer rb) @ take (write_ptr rb) (buffer rb)"

text \<open>The last \<open>n\<close> elements of a list (all of it when it is shorter).\<close>

definition lastn :: "nat \<Rightarrow> 'a list \<Rightarrow> 'a list" where
  "lastn n xs = drop (length xs - n) xs"

section \<open>Waveform functions\<close>

text \<open>
  The callables of \<open>SignalFunctions\<close>. Time and sample values are Python and numpy
  floats; they are modelled as real numbers, so rounding is not part of the model. The
  length of a result does not depend on it.
\<close>

record MySin =
  offset_sin :: real
  frequency_sin :: real

text \<open>\<open>MySin.__call__\<close>: numpy applies the expression to every element of \<open>t\<close>.\<close>

definition MySin_call :: "MySin \<Rightarrow> real list \<Rightarrow> real list" where
  "MySin_call self t = map (\<lambda>x. sin (2 * pi * x * frequency_sin self) + offset_sin self) t"

record DeltaUpDown =
  amplitude :: real
  frequency :: real
  offset :: real
  edge_time :: real

text \<open>Python's \<open>x % y\<close> on floats: the remainder has the sign of the divisor.\<close>

definition float_mod :: "real \<Rightarrow> real \<Rightarrow> real" where
  "float_mod x y = x - y * of_int \<lfloor>x / y\<rfloor>"

text \<open>
  The body of the loop of \<open>DeltaUpDown.__call__\<close> for one reduced time value \<open>x\<close>: the
  value it appends. The two divisions are reached only with a divisor that is not zero.
\<close>

definition pulse :: "DeltaUpDown \<Rightarrow> real \<Rightarrow> real \<Rightarrow> real" where
  "pulse self T x =
     (let edge0 = 0.1 * T;
          edge1 = (0.1 + edge_time self) * T;
          edge2 = 0.6 * T;
          edge3 = (0.6 + edge_time self) * T
      in if x \<le> edge0 then 0.0 + offset self
         else if x \<ge> edge0 \<and> x \<le> edge1 then
           (let t = (x - edge0) / (edge1 - edge0)
            in amplitude self * (t\<^sup>2 * (3 - 2 * t)) + offset self)
         else if x \<ge> edge1 \<and> x \<le> edge2 then amplitude self * 1.0 + offset self
         else if x \<ge> edge2 \<and> x \<le> edge3 then
           (let t = (x - edge2) / (edge3 - edge2)
            in amplitude self * (1 - (t\<^sup>2 * (3 - 2 * t))) + offset self)
         else amplitude self * 0 + offset self)"

text \<open>
  \<open>DeltaUpDown.__call__\<close>: \<open>1/self.frequency\<close> raises on a zero frequency; the loop
  runs over \<open>t_mod[:int(len(t_mod)/2)]\<close>.
\<close>

definition DeltaUpDown_call :: "DeltaUpDown \<Rightarrow> real list \<Rightarrow> error + real list" where
  "DeltaUpDown_call self t =
     (if frequency self = 0 then Inl ZeroDivisionError
      else
        (let T = 1 / frequency self;
             t_mod = map (\<lambda>t_val. float_mod t_val T) t
         in Inr (map (pulse self T) (slice t_mod None (Some (int (length t_mod div 2)))))))"

section \<open>SignalGenerator\<close>

text \<open>
  The thread that \<open>start\<close> creates runs the loop \<open>while self.running: ...\<close>. Its state
  is where it stands in the loop (about to test \<open>self.running\<close>, or past the test and
  about to run the body), with the \<open>duration\<close> and \<open>interval\<close> it was started with, or
  that it has exited.
\<close>

datatype position = AtCheck | InBody

datatype thread_state = Alive position real real | Exited

text \<open>
  The object state of \<open>SignalGenerator\<close>. \<open>thread\<close> is \<open>None\<close> as long as the object has
  no attribute \<open>thread\<close>, that is until \<open>start\<close> is called. \<open>func\<close> returns the samples
  or raises.
\<close>

record SignalGenerator =
  buffer_sg :: "real RingBuffer"
  sample_rate :: real
  running :: bool
  time_offset :: real
  func :: "real list \<Rightarrow> error + real list"
  thread :: "thread_state option"

text \<open>\<open>__init__\<close>; without \<open>func\<close> the generator uses a sine of amplitude and frequency 1.\<close>

definition SignalGenerator_init ::
  "real RingBuffer \<Rightarrow> real \<Rightarrow> (real list \<Rightarrow> error + real list) option \<Rightarrow> SignalGenerator" where
  "SignalGenerator_init buf rate f =
     \<lparr>buffer_sg = buf, sample_rate = rate, running = False, time_offset = 0,
      func = (case f of None \<Rightarrow> (\<lambda>t. Inr (map (\<lambda>x. 1.0 * sin (2 * pi * 1.0 * x)) t)) | Some g \<Rightarrow> g),
      thread = None\<rparr>"

text \<open>
  \<open>np.arange(start, stop, step)\<close> for a step that is not zero: the values
  \<open>start + i * step\<close> for \<open>0 \<le> i < ceil((stop - start) / step)\<close>, here in exact
  arithmetic. numpy computes the quotient and the values in double precision, so the
  length and the values of the array can differ from these by rounding.
\<close>

definition arange :: "real \<Rightarrow> real \<Rightarrow> real \<Rightarrow> real list" where
  "arange start stop step =
     map (\<lambda>i. start + real i * step) [0..<nat \<lceil>(stop - start) / step\<rceil>]"

text \<open>The time vector of \<open>_generate_samples\<close>, for a sample rate that is not zero.\<close>

definition time_vector :: "SignalGenerator \<Rightarrow> real \<Rightarrow> real list" where
  "time_vector self duration =
     map (\<lambda>x. x + time_offset self) (arange 0 duration (1 / sample_rate self))"

text \<open>
  \<open>_generate_samples\<close>: \<open>1/self.sample_rate\<close> raises on a zero rate; when \<open>func\<close>
  raises, \<open>time_offset\<close> is not advanced. The addition to \<open>time_offset\<close> is exact here
  and a rounded float64 addition in the code. What follows uses the control flow of
  this method only: which attributes a call can change, and when it raises.
\<close>

definition generate_samples ::
  "SignalGenerator \<Rightarrow> real \<Rightarrow> (error + real list) \<times> SignalGenerator" where
  "generate_samples self duration =
     (if sample_rate self = 0 then (Inl ZeroDivisionError, self)
      else
        (case func self (time_vector self duration) of
           Inl e \<Rightarrow> (Inl e, self)
         | Inr samples \<Rightarrow> (Inr samples, self\<lparr>time_offset := time_offset self + duration\<rparr>)))"

text \<open>
  One pass through the body of the loop of \<open>run\<close>: generate, write, sleep.
  \<open>time.sleep\<close> raises \<open>ValueError\<close> on a negative interval.
\<close>

definition cycle :: "SignalGenerator \<Rightarrow> real \<Rightarrow> real \<Rightarrow> (error + unit) \<times> SignalGenerator" where
  "cycle self duration interval =
     (case generate_samples self duration of
        (Inl e, s1) \<Rightarrow> (Inl e, s1)
      | (Inr samples, s1) \<Rightarrow>
          (case write (buffer_sg s1) samples of
             (Inl e, b) \<Rightarrow> (Inl e, s1\<lparr>buffer_sg := b\<rparr>)
           | (Inr u, b) \<Rightarrow>
               (if interval < 0 then (Inl ValueError, s1\<lparr>buffer_sg := b\<rparr>)
                else (Inr (), s1\<lparr>buffer_sg := b\<rparr>))))"

text \<open>\<open>start\<close>: sets \<open>running\<close> and starts a thread at the top of the loop.\<close>

definition start :: "SignalGenerator \<Rightarrow> real \<Rightarrow> real \<Rightarrow> SignalGenerator" where
  "start self duration interval =
     self\<lparr>running := True, thread := Some (Alive AtCheck duration interval)\<rparr>"

text \<open>
  One step of the thread of \<open>self.thread\<close>: the test of \<open>self.running\<close>, which leaves
  the loop when it is false, or one pass through the body, where an exception ends the
  thread.
\<close>

definition run_step :: "SignalGenerator \<Rightarrow> SignalGenerator" where
  "run_step self =
     (case thread self of
        Some (Alive AtCheck duration interval) \<Rightarrow>
          (if running self then self\<lparr>thread := Some (Alive InBody duration interval)\<rparr>
           else self\<lparr>thread := Some Exited\<rparr>)
      | Some (Alive InBody duration interval) \<Rightarrow>
          (case cycle self duration interval of
             (Inl e, s1) \<Rightarrow> s1\<lparr>thread := Some Exited\<rparr>
           | (Inr u, s1) \<Rightarrow> s1\<lparr>thread := Some (Alive AtCheck duration interval)\<rparr>)
      | Some Exited \<Rightarrow> self
      | None \<Rightarrow> self)"

definition is_alive :: "SignalGenerator \<Rightarrow> bool" where
  "is_alive self = (case thread self of Some (Alive p duration interval) \<Rightarrow> True | Some Exited \<Rightarrow> False | None \<Rightarrow> False)"

text \<open>
  \<open>self.thread.join()\<close>: the caller waits, and the thread runs, until the thread has
  exited. \<open>None\<close> is a wait that never ends.
\<close>

partial_function (option) join :: "SignalGenerator \<Rightarrow> SignalGenerator option" where
  "join self = (if is_alive self then join (run_step self) else Some self)"

text \<open>
  \<open>stop\<close>: clears \<open>running\<close>, then joins the thread if the attribute exists. \<open>None\<close> is
  a call that never returns.
\<close>

definition stop :: "SignalGenerator \<Rightarrow> ((error + unit) \<times> SignalGenerator) option" where
  "stop self =
     (let s1 = self\<lparr>running := False\<rparr>
      in if thread s1 \<noteq> None then map_option (\<lambda>s2. (Inr (), s2)) (join s1)
         else Some (Inr (), s1))"

section \<open>Slices with bounds inside the sequence\<close>

lemma slice_from_nat: "slice xs (Some (int i)) None = drop i xs"
  by (simp add: slice_def lower_bound_def upper_bound_def clip_index_def min_def)

lemma slice_to_nat: "slice xs None (Some (int j)) = take j xs"
  by (simp add: slice_def lower_bound_def upper_bound_def clip_index_def min_def)

lemma slice_nat: "slice xs (Some (int i)) (Some (int j)) = take (j - i) (drop i xs)"
  by (simp add: slice_def lower_bound_def upper_bound_def clip_index_def min_def)

lemma slice_last: "0 < k \<Longrightarrow> slice xs (Some (- int k)) None = drop (length xs - k) xs"
  by (simp add: slice_def lower_bound_def upper_bound_def clip_index_def nat_diff_distrib')

lemma assign_slice_all: "length vals = length arr \<Longrightarrow> assign_slice arr None None vals = Inr vals"
  by (simp add: assign_slice_def lower_bound_def upper_bound_def)

lemma assign_slice_from:
  "i \<le> length arr \<Longrightarrow> length vals = length arr - i \<Longrightarrow>
   assign_slice arr (Some (int i)) None vals = Inr (take i arr @ vals)"
  by (simp add: assign_slice_def lower_bound_def upper_bound_def clip_index_def min_def)

lemma assign_slice_nat:
  "i \<le> j \<Longrightarrow> j \<le> length arr \<Longrightarrow> length vals = j - i \<Longrightarrow>
   assign_slice arr (Some (int i)) (Some (int j)) vals = Inr (take i arr @ vals @ drop j arr)"
  by (simp add: assign_slice_def lower_bound_def upper_bound_def clip_index_def min_def)

lemma write_full:
  assumes "wf rb" "size_rb rb \<le> length data"
  shows "write rb data = (Inr (), rb\<lparr>buffer := drop (length data - size_rb rb) data, write_ptr := 0\<rparr>)"
  using assms
  by (simp add: write_def wf_def slice_last assign_slice_all)

lemma write_nowrap:
  assumes "wf rb" "write_ptr rb + length data < size_rb rb"
  shows "write rb data = (Inr (), rb\<lparr>buffer := take (write_ptr rb) (buffer rb) @ data @ drop (write_ptr rb + length data) (buffer rb), write_ptr := write_ptr rb + length data\<rparr>)"
  using assms
  by (simp add: write_def wf_def assign_slice_nat Let_def del: of_nat_add)

lemma write_wrap:
  assumes "wf rb" "length data < size_rb rb" "size_rb rb \<le> write_ptr rb + length data"
  shows "write rb data = (Inr (), rb\<lparr>buffer := drop (size_rb rb - write_ptr rb) data @ drop (write_ptr rb + length data - size_rb rb) (take (write_ptr rb) (buffer rb)) @ take (size_rb rb - write_ptr rb) data, write_ptr := write_ptr rb + length data - size_rb rb\<rparr>)"
proof -
  define wp where "wp = write_ptr rb"
  define sz where "sz = size_rb rb"
  define n where "n = length data"
  define buf where "buf = buffer rb"
  have A: "0 < sz" "length buf = sz" "wp < sz" "n < sz" "sz \<le> wp + n"
    using assms by (simp_all add: wf_def wp_def sz_def n_def buf_def)
  let ?e = "wp + n - sz"
  let ?fp = "sz - wp"
  have "?e < sz" using A by linarith
  then have e: "(wp + n) mod sz = ?e"
    using A(5) by (simp add: le_mod_geq)
  have lt: "?e < wp" using A by linarith
  have fp: "int sz - int wp = int ?fp"
    using A by simp
  have a1: "assign_slice buf (Some (int wp)) None (take ?fp data)
             = Inr (take wp buf @ take ?fp data)"
    using A by (intro assign_slice_from) (auto simp: n_def)
  have a2: "assign_slice (take wp buf @ take ?fp data) (Some (int 0)) (Some (int ?e)) (drop ?fp data)
             = Inr (drop ?fp data @ drop ?e (take wp buf) @ take ?fp data)"
    using A lt assign_slice_nat[of 0 ?e "take wp buf @ take ?fp data" "drop ?fp data"]
    by (simp add: n_def)
  have w: "write rb data = (case assign_slice buf (Some (int wp)) None (slice data None (Some (int sz - int wp))) of
              Inl e \<Rightarrow> (Inl e, rb)
            | Inr b1 \<Rightarrow>
               (case assign_slice b1 (Some 0) (Some (int ((wp + n) mod sz)))
                       (slice data (Some (int sz - int wp)) None) of
                  Inl e \<Rightarrow> (Inl e, rb\<lparr>buffer := b1\<rparr>)
                | Inr b2 \<Rightarrow> (Inr (), rb\<lparr>buffer := b2, write_ptr := (wp + n) mod sz\<rparr>)))"
    unfolding write_def Let_def wp_def[symmetric] sz_def[symmetric] n_def[symmetric] buf_def[symmetric]
    using A(4) lt e by simp
  show ?thesis
    unfolding w fp slice_to_nat slice_from_nat a1 e
    using a2 by (simp add: wp_def sz_def n_def buf_def)
qed

section \<open>The buffer in chronological order\<close>

lemma wf_init: "0 < c \<Longrightarrow> wf (init c)"
  by (simp add: wf_def init_def)

lemma chronological_init: "chronological (init c) = replicate c 0"
  by (simp add: chronological_def init_def)

lemma lastn_length: "n \<le> length xs \<Longrightarrow> length (lastn n xs) = n"
  by (simp add: lastn_def)

lemma lastn_append: "n \<le> length ys \<Longrightarrow> lastn n (xs @ ys) = lastn n ys"
  by (simp add: lastn_def)


lemma lastn_all: "length xs \<le> n \<Longrightarrow> lastn n xs = xs"
  by (simp add: lastn_def)


lemma write_chronological:
  assumes "wf rb"
  shows "\<exists>rb'. write rb data = (Inr (), rb') \<and> wf rb' \<and> size_rb rb' = size_rb rb
           \<and> chronological rb' = lastn (size_rb rb) (chronological rb @ data)"
proof -
  consider (full) "size_rb rb \<le> length data"
    | (nowrap) "write_ptr rb + length data < size_rb rb"
    | (wrap) "length data < size_rb rb" "size_rb rb \<le> write_ptr rb + length data"
    by linarith
  then show ?thesis
  proof cases
    case full
    then show ?thesis using assms
      by (simp add: write_full wf_def chronological_def lastn_def)
  next
    case nowrap
    then show ?thesis using assms
      by (simp add: write_nowrap wf_def chronological_def lastn_def add.commute)
  next
    case wrap
    then show ?thesis using assms
      by (auto simp add: write_wrap wf_def chronological_def lastn_def add.commute)
  qed
qed

lemma read_latest_nat:
  assumes "wf rb" "0 < k" "k \<le> size_rb rb"
  shows "read_latest rb (int k) = (Inr (lastn k (chronological rb)), rb)"
proof -
  define wp where "wp = write_ptr rb"
  define sz where "sz = size_rb rb"
  define buf where "buf = buffer rb"
  have A: "0 < sz" "length buf = sz" "wp < sz" "0 < k" "k \<le> sz"
    using assms by (simp_all add: wf_def wp_def sz_def buf_def)
  have chr: "chronological rb = drop wp buf @ take wp buf"
    by (simp add: chronological_def wp_def buf_def)
  show ?thesis
  proof (cases "k \<le> wp")
    case True
    then have st: "(int wp - int k) mod int sz = int (wp - k)"
      using A by (simp add: of_nat_diff[symmetric] del: of_nat_diff)
    have "read_latest rb (int k) = (Inr (slice buf (Some (int (wp - k))) (Some (int wp))), rb)"
      using A True unfolding read_latest_def Let_def wp_def[symmetric] sz_def[symmetric] buf_def[symmetric] st
      by simp
    then show ?thesis
      using A True by (simp add: slice_nat chr lastn_def drop_take del: of_nat_diff)
  next
    case False
    have eq: "int wp - int k + int sz = int (wp + sz - k)"
      using A by linarith
    have lt: "wp + sz - k < sz"
      using A False by linarith
    have "(int wp - int k) mod int sz = (int wp - int k + int sz) mod int sz"
      by simp
    also have "\<dots> = int (wp + sz - k) mod int sz"
      unfolding eq ..
    also have "\<dots> = int (wp + sz - k)"
      using lt by (simp only: zmod_int[symmetric] mod_less)
    finally have st: "(int wp - int k) mod int sz = int (wp + sz - k)" .
    show ?thesis
    proof (cases "wp = 0")
      case True
      have "read_latest rb (int k) = (Inr (slice buf (Some (int (sz - k))) (Some (int sz))), rb)"
        using A True unfolding read_latest_def Let_def wp_def[symmetric] sz_def[symmetric] buf_def[symmetric] st
        by (simp add: of_nat_diff)
      then show ?thesis
        using A True by (simp add: slice_nat chr lastn_def drop_take del: of_nat_diff)
    next
      case wpos: False
      have "read_latest rb (int k) = (Inr (slice buf (Some (int (wp + sz - k))) None @ slice buf None (Some (int wp))), rb)"
        using A False wpos unfolding read_latest_def Let_def wp_def[symmetric] sz_def[symmetric] buf_def[symmetric] st
        by (simp add: of_nat_diff)
      then show ?thesis
        using A False wpos by (simp add: slice_from_nat slice_to_nat chr lastn_def add.commute del: of_nat_diff)
    qed
  qed
qed

lemma length_chronological: "wf rb \<Longrightarrow> length (chronological rb) = size_rb rb"
  by (auto simp add: chronological_def wf_def)

lemma lastn_lastn_append: "lastn m (lastn m xs @ ys) = lastn m (xs @ ys)"
proof -
  have "length xs + length ys - (length xs - m + m) + (length xs - m) = length xs + length ys - m"
    by linarith
  then show ?thesis
    by (simp add: lastn_def)
qed

lemma writes_chronological:
  "wf rb \<Longrightarrow> \<exists>rb'. writes rb ds = (Inr (), rb') \<and> wf rb' \<and> size_rb rb' = size_rb rb
           \<and> chronological rb' = lastn (size_rb rb) (chronological rb @ concat ds)"
proof (induction ds arbitrary: rb)
  case Nil
  then show ?case by (simp add: lastn_all length_chronological)
next
  case (Cons d ds)
  from write_chronological[OF Cons.prems, of d] obtain rb1 where
    w: "write rb d = (Inr (), rb1)" and wf1: "wf rb1" and sz: "size_rb rb1 = size_rb rb"
    and chr: "chronological rb1 = lastn (size_rb rb) (chronological rb @ d)"
    by blast
  from Cons.IH[OF wf1] obtain rb' where
    ws: "writes rb1 ds = (Inr (), rb')" and wf': "wf rb'" and sz': "size_rb rb' = size_rb rb1"
    and chr': "chronological rb' = lastn (size_rb rb1) (chronological rb1 @ concat ds)"
    by blast
  have "chronological rb' = lastn (size_rb rb) (chronological rb @ concat (d # ds))"
    using chr' chr sz by (simp add: lastn_lastn_append)
  then show ?case
    using w ws wf' sz sz' by simp
qed

section \<open>Slot by slot: what a write below capacity stores\<close>

lemma ring_offset:
  fixes sz :: nat
  assumes "wp < sz" "j < sz"
  shows "(j + sz - wp) mod sz = (if wp \<le> j then j - wp else j + sz - wp)"
proof (cases "wp \<le> j")
  case True
  then have "j + sz - wp = (j - wp) + sz" by simp
  moreover have "j - wp < sz" using assms by simp
  ultimately show ?thesis using True by (simp only: mod_add_self2 mod_less if_True)
next
  case False
  then show ?thesis using assms by simp
qed

lemma ring_offset_inverse:
  fixes sz :: nat
  assumes "wp < sz" "i < sz"
  shows "((wp + i) mod sz + sz - wp) mod sz = i"
proof (cases "wp + i < sz")
  case True
  then show ?thesis using assms by (simp add: ring_offset)
next
  case False
  then have "(wp + i) mod sz = wp + i - sz"
    using assms by (simp add: le_mod_geq)
  moreover have "wp + i - sz < sz" "\<not> wp \<le> wp + i - sz"
    using assms False by simp_all
  ultimately show ?thesis using assms False by (simp add: ring_offset)
qed

lemma mod_wrap:
  fixes sz :: nat
  assumes "wp < sz" "n < sz" "sz \<le> wp + n"
  shows "(wp + n) mod sz = wp + n - sz"
proof -
  have "wp + n - sz < sz" using assms by linarith
  then show ?thesis using assms(3) by (simp add: le_mod_geq)
qed

lemma nth_write_nowrap:
  fixes sz :: nat
  assumes "length buf = sz" "wp < sz" "length data = n" "wp + n < sz" "j < sz"
  shows "(take wp buf @ data @ drop (wp + n) buf) ! j =
           (if (j + sz - wp) mod sz < n then data ! ((j + sz - wp) mod sz) else buf ! j)"
  using assms by (auto simp: ring_offset nth_append)

lemma nth_write_wrap:
  fixes sz :: nat
  assumes "length buf = sz" "wp < sz" "n < sz" "length data = n" "sz \<le> wp + n" "j < sz"
  shows "(drop (sz - wp) data @ drop (wp + n - sz) (take wp buf) @ take (sz - wp) data) ! j =
           (if (j + sz - wp) mod sz < n then data ! ((j + sz - wp) mod sz) else buf ! j)"
  using assms by (auto simp: ring_offset nth_append min_def add.commute)

lemma wfD:
  assumes "wf rb"
  shows "0 < size_rb rb" "length (buffer rb) = size_rb rb" "write_ptr rb < size_rb rb"
  using assms by (simp_all add: wf_def)

lemma write_below_nth:
  assumes "wf rb" "length data < size_rb rb"
  shows "\<exists>rb'. write rb data = (Inr (), rb') \<and> size_rb rb' = size_rb rb
           \<and> length (buffer rb') = size_rb rb
           \<and> write_ptr rb' = (write_ptr rb + length data) mod size_rb rb
           \<and> (\<forall>j<size_rb rb. buffer rb' ! j =
                 (if (j + size_rb rb - write_ptr rb) mod size_rb rb < length data
                  then data ! ((j + size_rb rb - write_ptr rb) mod size_rb rb)
                  else buffer rb ! j))"
proof (cases "write_ptr rb + length data < size_rb rb")
  case True
  have "\<forall>j<size_rb rb. (take (write_ptr rb) (buffer rb) @ data @ drop (write_ptr rb + length data) (buffer rb)) ! j =
                 (if (j + size_rb rb - write_ptr rb) mod size_rb rb < length data
                  then data ! ((j + size_rb rb - write_ptr rb) mod size_rb rb)
                  else buffer rb ! j)"
    using assms True by (intro allI impI nth_write_nowrap) (simp_all add: wfD)
  then show ?thesis
    using assms True by (simp add: write_nowrap wfD)
next
  case False
  then have ge: "size_rb rb \<le> write_ptr rb + length data" by simp
  have "\<forall>j<size_rb rb. (drop (size_rb rb - write_ptr rb) data @ drop (write_ptr rb + length data - size_rb rb) (take (write_ptr rb) (buffer rb)) @ take (size_rb rb - write_ptr rb) data) ! j =
                 (if (j + size_rb rb - write_ptr rb) mod size_rb rb < length data
                  then data ! ((j + size_rb rb - write_ptr rb) mod size_rb rb)
                  else buffer rb ! j)"
    using assms ge by (intro allI impI nth_write_wrap) (simp_all add: wfD)
  moreover have "(write_ptr rb + length data) mod size_rb rb = write_ptr rb + length data - size_rb rb"
    using assms ge by (intro mod_wrap) (simp_all add: wfD)
  moreover have "length (drop (size_rb rb - write_ptr rb) data @ drop (write_ptr rb + length data - size_rb rb) (take (write_ptr rb) (buffer rb)) @ take (size_rb rb - write_ptr rb) data) = size_rb rb"
    using wfD[OF assms(1)] assms(2) ge by (auto simp add: min_def)
  ultimately show ?thesis
    using assms ge by (simp add: write_wrap)
qed

lemma lastn_lastn:
  assumes "n \<le> m"
  shows "lastn n (lastn m xs) = lastn n xs"
proof -
  have "length xs - (length xs - m) - n + (length xs - m) = length xs - n"
    using assms by linarith
  then show ?thesis
    unfolding lastn_def length_drop drop_drop by simp
qed

section \<open>Claims about RingBuffer\<close>

text \<open>
  C1. A write of \<open>N < size\<close> values into a buffer that satisfies the capacity invariant
  raises nothing, keeps size and array length, stores value \<open>i\<close> of the data in slot
  \<open>(write_ptr + i) mod size\<close> (so the copy starts at \<open>write_ptr\<close> and wraps to slot 0
  after slot \<open>size - 1\<close>), leaves every other slot as it was, and moves \<open>write_ptr\<close> to
  \<open>(write_ptr + N) mod size\<close>. In particular, on a buffer of size 4, writing
  \<open>[1,2,3]\<close> and then \<open>[4,5]\<close> makes \<open>read_latest(4)\<close> return \<open>[2,3,4,5]\<close>.
\<close>

theorem write_below_capacity:
  assumes "wf rb" "length data < size_rb rb"
  shows "(\<exists>rb'. write rb data = (Inr (), rb') \<and> size_rb rb' = size_rb rb
            \<and> length (buffer rb') = size_rb rb
            \<and> write_ptr rb' = (write_ptr rb + length data) mod size_rb rb
            \<and> (\<forall>i<length data. buffer rb' ! ((write_ptr rb + i) mod size_rb rb) = data ! i)
            \<and> (\<forall>j<size_rb rb. length data \<le> (j + size_rb rb - write_ptr rb) mod size_rb rb
                   \<longrightarrow> buffer rb' ! j = buffer rb ! j))
         \<and> fst (read_latest (snd (writes (init 4) [[1, 2, 3], [4, 5 :: real]])) 4) = Inr [2, 3, 4, 5]"
proof
  from write_below_nth[OF assms] obtain rb' where
    w: "write rb data = (Inr (), rb')" "size_rb rb' = size_rb rb" "length (buffer rb') = size_rb rb"
       "write_ptr rb' = (write_ptr rb + length data) mod size_rb rb"
    and nth: "\<And>j. j < size_rb rb \<Longrightarrow> buffer rb' ! j =
                 (if (j + size_rb rb - write_ptr rb) mod size_rb rb < length data
                  then data ! ((j + size_rb rb - write_ptr rb) mod size_rb rb)
                  else buffer rb ! j)"
    by blast
  have "buffer rb' ! ((write_ptr rb + i) mod size_rb rb) = data ! i" if "i < length data" for i
  proof -
    have "i < size_rb rb" using that assms(2) by simp
    then have "((write_ptr rb + i) mod size_rb rb + size_rb rb - write_ptr rb) mod size_rb rb = i"
      using wfD[OF assms(1)] by (intro ring_offset_inverse)
    moreover have "(write_ptr rb + i) mod size_rb rb < size_rb rb"
      using wfD[OF assms(1)] by simp
    ultimately show ?thesis using nth that by simp
  qed
  moreover have "buffer rb' ! j = buffer rb ! j"
    if "j < size_rb rb" "length data \<le> (j + size_rb rb - write_ptr rb) mod size_rb rb" for j
    using nth[OF that(1)] that(2) by simp
  ultimately show "\<exists>rb'. write rb data = (Inr (), rb') \<and> size_rb rb' = size_rb rb
            \<and> length (buffer rb') = size_rb rb
            \<and> write_ptr rb' = (write_ptr rb + length data) mod size_rb rb
            \<and> (\<forall>i<length data. buffer rb' ! ((write_ptr rb + i) mod size_rb rb) = data ! i)
            \<and> (\<forall>j<size_rb rb. length data \<le> (j + size_rb rb - write_ptr rb) mod size_rb rb
                   \<longrightarrow> buffer rb' ! j = buffer rb ! j)"
    using w by blast
next
  show "fst (read_latest (snd (writes (init 4) [[1, 2, 3], [4, 5 :: real]])) 4) = Inr [2, 3, 4, 5]"
    by code_simp
qed

theorem write_below_capacity_witness:
  "wf \<lparr>size_rb = 4, buffer = [1, 2, 3, 0 :: real], write_ptr = 3\<rparr>
   \<and> length [4, 5 :: real] < 4
   \<and> write \<lparr>size_rb = 4, buffer = [1, 2, 3, 0 :: real], write_ptr = 3\<rparr> [4, 5]
       = (Inr (), \<lparr>size_rb = 4, buffer = [5, 2, 3, 4], write_ptr = 1\<rparr>)
   \<and> (3 + length [4, 5 :: real]) mod 4 = (1 :: nat)
   \<and> fst (read_latest (snd (writes (init 4) [[1, 2, 3], [4, 5 :: real]])) 4) = Inr [2, 3, 4, 5]"
proof -
  have h: "wf \<lparr>size_rb = 4, buffer = [1, 2, 3, 0 :: real], write_ptr = 3\<rparr>"
    by (simp add: wf_def)
  have l: "length [4, 5 :: real] < size_rb \<lparr>size_rb = 4, buffer = [1, 2, 3, 0 :: real], write_ptr = 3\<rparr>"
    by simp
  have "write \<lparr>size_rb = 4, buffer = [1, 2, 3, 0 :: real], write_ptr = 3\<rparr> [4, 5]
       = (Inr (), \<lparr>size_rb = 4, buffer = [5, 2, 3, 4], write_ptr = 1\<rparr>)"
    by code_simp
  then show ?thesis
    using write_below_capacity[OF h l] h by simp
qed

text \<open>
  C2. A write of \<open>N \<ge> size\<close> values into a buffer that satisfies the capacity invariant
  raises nothing, replaces the whole array by the last \<open>size\<close> values of the data and
  sets \<open>write_ptr\<close> to 0. In particular, on a fresh buffer of size 4, writing
  \<open>[1,2,3,4,5,6]\<close> makes \<open>read_latest(4)\<close> return \<open>[3,4,5,6]\<close> with \<open>write_ptr = 0\<close>.
\<close>

theorem write_at_least_capacity:
  assumes "wf rb" "size_rb rb \<le> length data"
  shows "write rb data = (Inr (), rb\<lparr>buffer := lastn (size_rb rb) data, write_ptr := 0\<rparr>)
         \<and> read_latest (snd (write (init 4) [1, 2, 3, 4, 5, 6 :: real])) 4
             = (Inr [3, 4, 5, 6], \<lparr>size_rb = 4, buffer = [3, 4, 5, 6], write_ptr = 0\<rparr>)"
proof
  show "write rb data = (Inr (), rb\<lparr>buffer := lastn (size_rb rb) data, write_ptr := 0\<rparr>)"
    using assms by (simp add: write_full lastn_def)
  show "read_latest (snd (write (init 4) [1, 2, 3, 4, 5, 6 :: real])) 4
             = (Inr [3, 4, 5, 6], \<lparr>size_rb = 4, buffer = [3, 4, 5, 6], write_ptr = 0\<rparr>)"
    by code_simp
qed

theorem write_at_least_capacity_witness:
  "wf \<lparr>size_rb = 4, buffer = [9, 8, 7, 6 :: real], write_ptr = 2\<rparr>
   \<and> (4 :: nat) \<le> length [1, 2, 3, 4, 5, 6 :: real]
   \<and> write \<lparr>size_rb = 4, buffer = [9, 8, 7, 6 :: real], write_ptr = 2\<rparr> [1, 2, 3, 4, 5, 6]
       = (Inr (), \<lparr>size_rb = 4, buffer = [3, 4, 5, 6], write_ptr = 0\<rparr>)"
proof -
  have h: "wf \<lparr>size_rb = 4, buffer = [9, 8, 7, 6 :: real], write_ptr = 2\<rparr>"
    by (simp add: wf_def)
  have l: "size_rb \<lparr>size_rb = 4, buffer = [9, 8, 7, 6 :: real], write_ptr = 2\<rparr>
             \<le> length [1, 2, 3, 4, 5, 6 :: real]"
    by simp
  show ?thesis
    using write_at_least_capacity[OF h l] h by (simp add: lastn_def)
qed

text \<open>
  C5. On a buffer of positive size and for a positive \<open>num_samples\<close>, \<open>read_latest\<close>
  raises \<open>ValueError\<close> exactly when \<open>num_samples > size\<close>, and otherwise returns a
  value: no other exception occurs. The object state after the call is the state before
  it, whether it raised or not. In particular \<open>read_latest(size + 1)\<close> raises
  \<open>ValueError\<close> and \<open>read_latest(size)\<close> returns.
\<close>

theorem read_latest_out_of_range:
  assumes "0 < size_rb rb" "0 < n"
  shows "(fst (read_latest rb n) = Inl ValueError \<longleftrightarrow> int (size_rb rb) < n)
         \<and> (\<exists>xs. fst (read_latest rb n) = (if int (size_rb rb) < n then Inl ValueError else Inr xs))
         \<and> snd (read_latest rb n) = rb
         \<and> fst (read_latest rb (int (size_rb rb) + 1)) = Inl ValueError
         \<and> (\<exists>xs. fst (read_latest rb (int (size_rb rb))) = Inr xs)"
  using assms by (auto simp add: read_latest_def Let_def)

theorem read_latest_out_of_range_witness:
  "0 < size_rb \<lparr>size_rb = 4, buffer = [5, 2, 3, 4 :: real], write_ptr = 1\<rparr>
   \<and> (0 :: int) < 5
   \<and> read_latest \<lparr>size_rb = 4, buffer = [5, 2, 3, 4 :: real], write_ptr = 1\<rparr> 5
       = (Inl ValueError, \<lparr>size_rb = 4, buffer = [5, 2, 3, 4], write_ptr = 1\<rparr>)
   \<and> read_latest \<lparr>size_rb = 4, buffer = [5, 2, 3, 4 :: real], write_ptr = 1\<rparr> 4
       = (Inr [2, 3, 4, 5], \<lparr>size_rb = 4, buffer = [5, 2, 3, 4], write_ptr = 1\<rparr>)"
proof -
  have s: "0 < size_rb \<lparr>size_rb = 4, buffer = [5, 2, 3, 4 :: real], write_ptr = 1\<rparr>"
    by simp
  have h: "(0 :: int) < 5" by simp
  have "read_latest \<lparr>size_rb = 4, buffer = [5, 2, 3, 4 :: real], write_ptr = 1\<rparr> 4
       = (Inr [2, 3, 4, 5], \<lparr>size_rb = 4, buffer = [5, 2, 3, 4], write_ptr = 1\<rparr>)"
    by code_simp
  then show ?thesis
    using read_latest_out_of_range[OF s h] by (simp add: prod_eq_iff)
qed

text \<open>
  C6. Starting from a buffer constructed with a positive size \<open>c\<close>, every finite sequence
  of writes (of any lengths, the empty one included) raises nothing and ends in a state
  whose array has length \<open>c\<close> and whose \<open>write_ptr\<close> is below \<open>c\<close>; and a single write
  from any state that satisfies the capacity invariant raises nothing and ends in a
  state that satisfies it, with the same size.
\<close>

theorem capacity_invariant:
  "(0 < c \<longrightarrow> (\<exists>rb. writes (init c :: ('a::zero) RingBuffer) ds = (Inr (), rb) \<and> size_rb rb = c
        \<and> length (buffer rb) = c \<and> write_ptr rb < c))
   \<and> (wf s \<longrightarrow> (\<exists>s'. write s data = (Inr (), s') \<and> wf s' \<and> size_rb s' = size_rb s))"
proof (intro conjI impI)
  assume "0 < c"
  then have "wf (init c :: 'a RingBuffer)" by (rule wf_init)
  from writes_chronological[OF this, of ds]
  show "\<exists>rb. writes (init c :: 'a RingBuffer) ds = (Inr (), rb) \<and> size_rb rb = c
        \<and> length (buffer rb) = c \<and> write_ptr rb < c"
    by (auto simp: wf_def init_def)
next
  assume "wf s"
  from write_chronological[OF this, of data]
  show "\<exists>s'. write s data = (Inr (), s') \<and> wf s' \<and> size_rb s' = size_rb s"
    by blast
qed

theorem capacity_invariant_witness:
  "(0 :: nat) < 4
   \<and> writes (init 4) [[1, 2, 3], [], [4, 5], [6, 7, 8, 9], [10, 11, 12, 13, 14 :: real]]
       = (Inr (), \<lparr>size_rb = 4, buffer = [11, 12, 13, 14], write_ptr = 0\<rparr>)
   \<and> wf \<lparr>size_rb = 4, buffer = [5, 2, 3, 4 :: real], write_ptr = 1\<rparr>
   \<and> write \<lparr>size_rb = 4, buffer = [5, 2, 3, 4 :: real], write_ptr = 1\<rparr> [6, 7, 8]
       = (Inr (), \<lparr>size_rb = 4, buffer = [5, 6, 7, 8], write_ptr = 0\<rparr>)
   \<and> wf \<lparr>size_rb = 4, buffer = [5, 6, 7, 8 :: real], write_ptr = 0\<rparr>"
proof -
  have c: "(0 :: nat) < 4" by simp
  have h: "wf \<lparr>size_rb = 4, buffer = [5, 2, 3, 4 :: real], write_ptr = 1\<rparr>"
    by (simp add: wf_def)
  have w: "writes (init 4) [[1, 2, 3], [], [4, 5], [6, 7, 8, 9], [10, 11, 12, 13, 14 :: real]]
       = (Inr (), \<lparr>size_rb = 4, buffer = [11, 12, 13, 14], write_ptr = 0\<rparr>)"
    by code_simp
  have w1: "write \<lparr>size_rb = 4, buffer = [5, 2, 3, 4 :: real], write_ptr = 1\<rparr> [6, 7, 8]
       = (Inr (), \<lparr>size_rb = 4, buffer = [5, 6, 7, 8], write_ptr = 0\<rparr>)"
    by code_simp
  show ?thesis
    using capacity_invariant[of 4 "[[1, 2, 3], [], [4, 5], [6, 7, 8, 9], [10, 11, 12, 13, 14 :: real]]"
            "\<lparr>size_rb = 4, buffer = [5, 2, 3, 4 :: real], write_ptr = 1\<rparr>" "[6, 7, 8]"]
      c h w w1
    by (auto simp add: wf_def)
qed

text \<open>
  C10. On a freshly constructed buffer of size \<open>c\<close>, \<open>read_latest(n)\<close> with
  \<open>1 \<le> n \<le> c\<close> returns \<open>n\<close> zeros and leaves the buffer as constructed; and on any
  buffer that satisfies the capacity invariant, \<open>read_latest(n)\<close> with
  \<open>1 \<le> n \<le> size\<close> returns exactly \<open>n\<close> values.
\<close>

theorem read_latest_fresh:
  assumes "0 < n" "n \<le> int c"
  shows "read_latest (init c :: ('a::zero) RingBuffer) n = (Inr (replicate (nat n) 0), init c)
         \<and> (wf rb \<and> n \<le> int (size_rb rb) \<longrightarrow>
               (\<exists>xs. read_latest rb n = (Inr xs, rb) \<and> int (length xs) = n))"
proof (intro conjI impI)
  obtain k where k: "n = int k" "0 < k" "k \<le> c"
    using assms by (metis nat_0_le nat_le_iff of_nat_0_less_iff order_less_imp_le zero_less_nat_eq)
  then have "wf (init c :: 'a RingBuffer)" "k \<le> size_rb (init c :: 'a RingBuffer)"
    by (simp_all add: wf_init) (simp add: init_def)
  from read_latest_nat[OF this(1) k(2) this(2)]
  show "read_latest (init c :: 'a RingBuffer) n = (Inr (replicate (nat n) 0), init c)"
    using k by (simp add: chronological_init lastn_def)
next
  assume a: "wf rb \<and> n \<le> int (size_rb rb)"
  obtain k where k: "n = int k" "0 < k" "k \<le> size_rb rb"
    using assms a by (metis nat_0_le nat_le_iff of_nat_0_less_iff order_less_imp_le zero_less_nat_eq)
  from a have "wf rb" by simp
  from read_latest_nat[OF this k(2) k(3)] length_chronological[OF this]
  show "\<exists>xs. read_latest rb n = (Inr xs, rb) \<and> int (length xs) = n"
    using k by (simp add: lastn_def)
qed

theorem read_latest_fresh_witness:
  "(0 :: int) < 3 \<and> (3 :: int) \<le> int 4
   \<and> read_latest (init 4 :: real RingBuffer) 3 = (Inr [0, 0, 0], init 4)
   \<and> wf \<lparr>size_rb = 4, buffer = [5, 2, 3, 4 :: real], write_ptr = 1\<rparr>
   \<and> read_latest \<lparr>size_rb = 4, buffer = [5, 2, 3, 4 :: real], write_ptr = 1\<rparr> 3
       = (Inr [3, 4, 5], \<lparr>size_rb = 4, buffer = [5, 2, 3, 4], write_ptr = 1\<rparr>)"
proof -
  have a: "(0 :: int) < 3" and b: "(3 :: int) \<le> int 4" by simp_all
  have h: "wf \<lparr>size_rb = 4, buffer = [5, 2, 3, 4 :: real], write_ptr = 1\<rparr>"
    by (simp add: wf_def)
  have r: "read_latest \<lparr>size_rb = 4, buffer = [5, 2, 3, 4 :: real], write_ptr = 1\<rparr> 3
       = (Inr [3, 4, 5], \<lparr>size_rb = 4, buffer = [5, 2, 3, 4], write_ptr = 1\<rparr>)"
    by code_simp
  have three: "replicate (nat 3) (0 :: real) = [0, 0, 0]"
    by (simp add: numeral_3_eq_3)
  show ?thesis
    using read_latest_fresh[OF a b, where 'a = real and rb = "\<lparr>size_rb = 4, buffer = [5, 2, 3, 4 :: real], write_ptr = 1\<rparr>"]
      h r three
    by simp
qed

text \<open>
  C3, as stated, at a concrete input. On a fresh buffer of size 4, after the single write
  \<open>[7]\<close>, \<open>read_latest(2)\<close> returns \<open>[0, 7]\<close>: one written value preceded by the
  zero of a slot that was never written, not two written values.
\<close>

theorem read_latest_unwritten_counterexample:
  "fst (read_latest (snd (writes (init 4) [[7 :: real]])) 2) = Inr [0, 7]
   \<and> fst (read_latest (snd (writes (init 4) [[7 :: real]])) 2) \<noteq> Inr (lastn 2 (concat [[7 :: real]]))"
  by code_simp

text \<open>
  C3, amended. After any sequence of writes on a freshly constructed buffer of size
  \<open>c\<close>, \<open>read_latest(n)\<close> with \<open>1 \<le> n \<le> c\<close> returns the last \<open>n\<close> elements of the
  sequence made of \<open>c\<close> zeros followed by every value written so far, in write order.
  When at least \<open>n\<close> values have been written, these are the \<open>n\<close> most recently
  written values, oldest first. And a chunk of \<open>n\<close> values written by a single write to a
  fresh buffer of size \<open>c \<ge> n\<close> is returned by \<open>read_latest(n)\<close> as it was written.
\<close>

theorem read_latest_most_recent:
  fixes ds :: "('a::zero) list list" and chunk :: "'a list"
  assumes "0 < c" "0 < n" "n \<le> c"
  shows "(\<exists>rb. writes (init c) ds = (Inr (), rb)
            \<and> read_latest rb (int n) = (Inr (lastn n (replicate c 0 @ concat ds)), rb)
            \<and> (n \<le> length (concat ds) \<longrightarrow> read_latest rb (int n) = (Inr (lastn n (concat ds)), rb)))
         \<and> (length chunk = n \<longrightarrow>
              (\<exists>rb. write (init c) chunk = (Inr (), rb) \<and> read_latest rb (int n) = (Inr chunk, rb)))"
proof -
  have gen: "\<exists>rb. writes (init c) es = (Inr (), rb)
            \<and> read_latest rb (int n) = (Inr (lastn n (replicate c 0 @ concat es)), rb)"
    for es :: "'a list list"
  proof -
    have "wf (init c :: 'a RingBuffer)" using assms(1) by (rule wf_init)
    from writes_chronological[OF this, of es] obtain rb where
      rb0: "writes (init c) es = (Inr (), rb)" "wf rb" "size_rb rb = size_rb (init c :: 'a RingBuffer)"
          "chronological rb = lastn (size_rb (init c :: 'a RingBuffer)) (chronological (init c) @ concat es)"
      by blast
    have rb: "writes (init c) es = (Inr (), rb)" "wf rb" "size_rb rb = c"
          "chronological rb = lastn c (replicate c 0 @ concat es)"
      using rb0 by (simp_all add: chronological_init) (simp_all add: init_def)
    have "read_latest rb (int n) = (Inr (lastn n (chronological rb)), rb)"
      using rb assms by (intro read_latest_nat) simp_all
    moreover have "lastn n (lastn c (replicate c 0 @ concat es)) = lastn n (replicate c 0 @ concat es)"
      using assms(3) by (rule lastn_lastn)
    ultimately show ?thesis using rb by auto
  qed
  show ?thesis
  proof (intro conjI impI)
    from gen[of ds] obtain rb where
      rb: "writes (init c) ds = (Inr (), rb)"
          "read_latest rb (int n) = (Inr (lastn n (replicate c 0 @ concat ds)), rb)"
      by blast
    then show "\<exists>rb. writes (init c) ds = (Inr (), rb)
            \<and> read_latest rb (int n) = (Inr (lastn n (replicate c 0 @ concat ds)), rb)
            \<and> (n \<le> length (concat ds) \<longrightarrow> read_latest rb (int n) = (Inr (lastn n (concat ds)), rb))"
      by (auto simp: lastn_append)
  next
    assume len: "length chunk = n"
    from gen[of "[chunk]"] obtain rb where
      rb: "writes (init c) [chunk] = (Inr (), rb)"
          "read_latest rb (int n) = (Inr (lastn n (replicate c 0 @ concat [chunk])), rb)"
      by blast
    from rb(1) have "write (init c) chunk = (Inr (), rb)"
      by (auto split: prod.splits sum.splits)
    moreover have "lastn n (replicate c 0 @ concat [chunk]) = chunk"
      using len by (simp add: lastn_def)
    ultimately show "\<exists>rb. write (init c) chunk = (Inr (), rb) \<and> read_latest rb (int n) = (Inr chunk, rb)"
      using rb(2) by auto
  qed
qed

theorem read_latest_most_recent_witness:
  "(0 :: nat) < 4 \<and> (0 :: nat) < 3 \<and> (3 :: nat) \<le> 4
   \<and> writes (init 4) [[1, 2, 3], [4, 5 :: real]] = (Inr (), \<lparr>size_rb = 4, buffer = [5, 2, 3, 4], write_ptr = 1\<rparr>)
   \<and> read_latest \<lparr>size_rb = 4, buffer = [5, 2, 3, 4 :: real], write_ptr = 1\<rparr> 3
       = (Inr [3, 4, 5], \<lparr>size_rb = 4, buffer = [5, 2, 3, 4], write_ptr = 1\<rparr>)
   \<and> lastn 3 (concat [[1, 2, 3], [4, 5 :: real]]) = [3, 4, 5]
   \<and> length [7, 8, 9 :: real] = 3
   \<and> write (init 4) [7, 8, 9 :: real] = (Inr (), \<lparr>size_rb = 4, buffer = [7, 8, 9, 0], write_ptr = 3\<rparr>)
   \<and> read_latest \<lparr>size_rb = 4, buffer = [7, 8, 9, 0 :: real], write_ptr = 3\<rparr> 3
       = (Inr [7, 8, 9], \<lparr>size_rb = 4, buffer = [7, 8, 9, 0], write_ptr = 3\<rparr>)"
proof -
  have a: "(0 :: nat) < 4" and b: "(0 :: nat) < 3" and c: "(3 :: nat) \<le> 4" by simp_all
  have w: "writes (init 4) [[1, 2, 3], [4, 5 :: real]] = (Inr (), \<lparr>size_rb = 4, buffer = [5, 2, 3, 4], write_ptr = 1\<rparr>)"
    by code_simp
  have w1: "write (init 4) [7, 8, 9 :: real] = (Inr (), \<lparr>size_rb = 4, buffer = [7, 8, 9, 0], write_ptr = 3\<rparr>)"
    by code_simp
  have l: "lastn 3 (concat [[1, 2, 3], [4, 5 :: real]]) = [3, 4, 5]"
    by code_simp
  have n: "length (concat [[1, 2, 3], [4, 5 :: real]]) = 5" by simp
  show ?thesis
    using read_latest_most_recent[OF a b c, of "[[1, 2, 3], [4, 5 :: real]]" "[7, 8, 9 :: real]"] w w1 l n
    by (auto simp del: writes.simps)
qed

section \<open>Claims about the waveform functions\<close>

lemma MySin_call_length: "length (MySin_call self t) = length t"
  by (simp add: MySin_call_def)

lemma DeltaUpDown_call_length:
  "frequency self \<noteq> 0 \<Longrightarrow> \<exists>ys. DeltaUpDown_call self t = Inr ys \<and> length ys = length t div 2"
  by (simp add: DeltaUpDown_call_def Let_def slice_to_nat)

text \<open>
  C4. The sine returns one sample for each time value (\<open>MySin_call_length\<close>). The
  trapezoid pulse does not: its loop runs over the first half of the reduced time values
  only, so it returns \<open>len(t) div 2\<close> samples (\<open>DeltaUpDown_call_length\<close>). With the
  default amplitude, frequency, offset and edge time, the four time values
  \<open>[0, 1/4, 1/2, 3/4]\<close> give the two samples \<open>[0, 1]\<close>, those of the times \<open>0\<close> and \<open>1/4\<close>.
\<close>

theorem DeltaUpDown_call_half:
  "DeltaUpDown_call \<lparr>amplitude = 1, frequency = 1, offset = 0, edge_time = 1/20\<rparr> [0, 1/4, 1/2, 3/4]
     = Inr [0, 1]"
  by (simp add: DeltaUpDown_call_def Let_def slice_to_nat float_mod_def pulse_def)

section \<open>Claims about SignalGenerator\<close>

lemma cycle_fields:
  assumes "cycle g d i = (r, g1)"
  shows "sample_rate g1 = sample_rate g" "running g1 = running g" "thread g1 = thread g"
    "func g1 = func g"
  using assms
  by (auto simp: cycle_def generate_samples_def split: if_splits sum.splits prod.splits)

lemma join_exited: "\<not> is_alive g \<Longrightarrow> join g = Some g"
  by (subst join.simps) simp

lemma join_step: "is_alive g \<Longrightarrow> join g = join (run_step g)"
  by (subst join.simps) simp

lemma run_step_at_check:
  assumes "thread g = Some (Alive AtCheck d i)" "\<not> running g"
  shows "run_step g = g\<lparr>thread := Some Exited\<rparr>"
  using assms by (simp add: run_step_def)

lemma run_step_in_body:
  assumes "thread g = Some (Alive InBody d i)"
  shows "running (run_step g) = running g
         \<and> (thread (run_step g) = Some Exited \<or> thread (run_step g) = Some (Alive AtCheck d i))"
proof -
  obtain r g1 where c: "cycle g d i = (r, g1)" by (cases "cycle g d i")
  from cycle_fields[OF c] c assms show ?thesis
    by (cases r) (simp_all add: run_step_def)
qed

lemma join_stopped:
  assumes "\<not> running g" "thread g \<noteq> None"
  shows "\<exists>g'. join g = Some g' \<and> \<not> running g' \<and> thread g' = Some Exited"
proof -
  have at_check: "\<exists>g'. join h = Some g' \<and> \<not> running g' \<and> thread g' = Some Exited"
    if "thread h = Some (Alive AtCheck d i)" "\<not> running h" for h d i
  proof -
    have "is_alive h" using that by (simp add: is_alive_def)
    then have "join h = join (h\<lparr>thread := Some Exited\<rparr>)"
      using run_step_at_check[OF that] by (simp add: join_step)
    also have "\<dots> = Some (h\<lparr>thread := Some Exited\<rparr>)"
      by (rule join_exited) (simp add: is_alive_def)
    finally show ?thesis using that by simp
  qed
  from assms(2) obtain th where th: "thread g = Some th" by auto
  show ?thesis
  proof (cases th)
    case Exited
    then have "join g = Some g" using th by (intro join_exited) (simp add: is_alive_def)
    then show ?thesis using assms th Exited by simp
  next
    case (Alive p d i)
    show ?thesis
    proof (cases p)
      case AtCheck
      then show ?thesis using at_check[of g d i] th Alive assms by simp
    next
      case InBody
      then have t: "thread g = Some (Alive InBody d i)" using th Alive by simp
      then have "is_alive g" by (simp add: is_alive_def)
      then have j: "join g = join (run_step g)" by (rule join_step)
      from run_step_in_body[OF t] assms(1)
      have r: "\<not> running (run_step g)"
        and c: "thread (run_step g) = Some Exited \<or> thread (run_step g) = Some (Alive AtCheck d i)"
        by simp_all
      from c show ?thesis
      proof
        assume e: "thread (run_step g) = Some Exited"
        then have "join (run_step g) = Some (run_step g)"
          by (intro join_exited) (simp add: is_alive_def)
        then show ?thesis using j r e by simp
      next
        assume "thread (run_step g) = Some (Alive AtCheck d i)"
        from at_check[OF this r] show ?thesis using j by simp
      qed
    qed
  qed
qed

lemma stop_inactive:
  assumes "\<not> running g" "\<not> is_alive g"
  shows "stop g = Some (Inr (), g)"
proof -
  have g: "g\<lparr>running := False\<rparr> = g" using assms(1) by (cases g) simp
  show ?thesis
    using assms(2) by (simp add: stop_def g join_exited)
qed

lemma stop_returns:
  "\<exists>g1. stop g = Some (Inr (), g1) \<and> \<not> running g1 \<and> \<not> is_alive g1"
proof (cases "thread g = None")
  case True
  then show ?thesis by (simp add: stop_def is_alive_def)
next
  case False
  then have "thread (g\<lparr>running := False\<rparr>) \<noteq> None" "\<not> running (g\<lparr>running := False\<rparr>)"
    by simp_all
  from join_stopped[OF this(2) this(1)] False show ?thesis
    by (auto simp: stop_def is_alive_def)
qed

text \<open>
  C8. \<open>stop\<close> on a generator on which \<open>start\<close> was never called returns without an
  exception and leaves the object as constructed. \<open>stop\<close> on a generator with no
  generation active (\<open>running\<close> false, a thread absent or exited) returns without an
  exception and changes nothing. And in every state \<open>stop\<close> returns without an
  exception (the join ends, because the loop sees \<open>running\<close> false at its next test), and
  a second \<open>stop\<close> right after it returns without an exception and changes nothing.
  While \<open>stop\<close> waits in \<open>join\<close>, the model runs the thread of \<open>self.thread\<close> only.
\<close>

theorem stop_idempotent:
  "stop (SignalGenerator_init buf rate f) = Some (Inr (), SignalGenerator_init buf rate f)
   \<and> (\<not> running g \<and> \<not> is_alive g \<longrightarrow> stop g = Some (Inr (), g))
   \<and> (\<exists>g1. stop g = Some (Inr (), g1) \<and> stop g1 = Some (Inr (), g1))"
proof (intro conjI impI)
  show "stop (SignalGenerator_init buf rate f) = Some (Inr (), SignalGenerator_init buf rate f)"
    by (rule stop_inactive) (simp_all add: SignalGenerator_init_def is_alive_def)
  show "stop g = Some (Inr (), g)" if "\<not> running g \<and> \<not> is_alive g"
    using that by (simp add: stop_inactive)
  from stop_returns[of g] obtain g1 where
    "stop g = Some (Inr (), g1)" "\<not> running g1" "\<not> is_alive g1"
    by blast
  then show "\<exists>g1. stop g = Some (Inr (), g1) \<and> stop g1 = Some (Inr (), g1)"
    using stop_inactive[of g1] by blast
qed

theorem stop_idempotent_witness:
  "\<not> running ((SignalGenerator_init (init 4) 2 (Some Inr))\<lparr>thread := Some Exited\<rparr>)
   \<and> \<not> is_alive ((SignalGenerator_init (init 4) 2 (Some Inr))\<lparr>thread := Some Exited\<rparr>)
   \<and> stop ((SignalGenerator_init (init 4) 2 (Some Inr))\<lparr>thread := Some Exited\<rparr>)
       = Some (Inr (), (SignalGenerator_init (init 4) 2 (Some Inr))\<lparr>thread := Some Exited\<rparr>)
   \<and> stop (start (SignalGenerator_init (init 4) 2 (Some Inr)) (3/4) 0)
       = Some (Inr (), (SignalGenerator_init (init 4) 2 (Some Inr))\<lparr>thread := Some Exited\<rparr>)"
proof -
  let ?g = "(SignalGenerator_init (init 4) 2 (Some Inr))\<lparr>thread := Some Exited\<rparr>"
  have a: "\<not> running ?g" and b: "\<not> is_alive ?g"
    by (simp_all add: SignalGenerator_init_def is_alive_def)
  have al: "is_alive ((start (SignalGenerator_init (init 4) 2 (Some Inr)) (3/4) 0)\<lparr>running := False\<rparr>)"
    by (simp add: start_def is_alive_def)
  have rs: "run_step ((start (SignalGenerator_init (init 4) 2 (Some Inr)) (3/4) 0)\<lparr>running := False\<rparr>) = ?g"
    by (simp add: run_step_def start_def SignalGenerator_init_def)
  have "stop (start (SignalGenerator_init (init 4) 2 (Some Inr)) (3/4) 0) = Some (Inr (), ?g)"
    unfolding stop_def Let_def join_step[OF al] rs join_exited[OF b]
    by (simp add: start_def)
  then show ?thesis
    using stop_idempotent[of "init 4" 2 "Some Inr" ?g] a b by simp
qed

end
